theory Spec2Isabelle
  imports Main "HOL-Library.Word" "HOL-Library.Monad_Syntax"
begin

unbundle bit_operations_syntax

section \<open>Data model\<close>

text \<open>
  Go's \<open>uint64\<close>, \<open>uint32\<close> and \<open>byte\<close> are words of the given width: \<open>+\<close>, \<open>-\<close> and
  \<open>*\<close> wrap around, \<open>push_bit\<close> is \<open><<\<close> and \<open>drop_bit\<close> is the logical \<open>>>\<close>; a shift by the
  width or more gives 0 in Go and in HOL alike. An \<open>int64\<close> is the same 64 bits read with
  \<open>sint\<close>, so the conversions \<open>uint64(seed)\<close> and \<open>int64(x)\<close> leave the word as it is.
\<close>

type_synonym uint64 = "64 word"
type_synonym int64 = "64 word"
type_synonym uint32 = "32 word"
type_synonym byte = "8 word"

text \<open>A run-time panic of the Go program, with its message.\<close>

datatype panic = Panic string

text \<open>\<open>type UnsafeXoshiro256ssRNG struct { s0, s1, s2, s3 uint64 }\<close>\<close>

record UnsafeXoshiro256ssRNG =
  s0 :: uint64
  s1 :: uint64
  s2 :: uint64
  s3 :: uint64

text \<open>
  The interface \<open>UnsafeRNG\<close> has the one method \<open>Uint64() uint64\<close>, which mutates its
  receiver. A generator is a state of some type \<open>'g\<close> together with that method as a
  function returning the drawn value and the state after the call.
\<close>

type_synonym 'g UnsafeRNG = "'g \<Rightarrow> uint64 \<times> 'g"

section \<open>The Xoshiro256** core\<close>

text \<open>
  \<open>func rol64(x uint64, k uint64) uint64 { return (x << k) | (x >> (64 - k)) }\<close>.
  The subtraction \<open>64 - k\<close> is a \<open>uint64\<close> subtraction and wraps for \<open>k > 64\<close>.
\<close>

definition rol64 :: "uint64 \<Rightarrow> uint64 \<Rightarrow> uint64" where
  "rol64 x k = push_bit (unat k) x OR drop_bit (unat (64 - k)) x"

definition Splitmix64 :: "uint64 \<Rightarrow> uint64" where
  "Splitmix64 index =
     (let z = index + 0x9E3779B97F4A7C15;
          z = (z XOR drop_bit 30 z) * 0xBF58476D1CE4E5B9;
          z = (z XOR drop_bit 27 z) * 0x94D049BB133111EB;
          z = z XOR drop_bit 31 z
      in z)"

text \<open>The method \<open>Uint64\<close> of the core: the result and the receiver after the call.\<close>

definition UnsafeXoshiro256ssRNG_Uint64 :: "UnsafeXoshiro256ssRNG UnsafeRNG" where
  "UnsafeXoshiro256ssRNG_Uint64 r =
     (let result = rol64 (s1 r * 5) 7 * 9;
          t = push_bit 17 (s1 r);
          r = r\<lparr>s2 := s2 r XOR s0 r\<rparr>;
          r = r\<lparr>s3 := s3 r XOR s1 r\<rparr>;
          r = r\<lparr>s1 := s1 r XOR s2 r\<rparr>;
          r = r\<lparr>s0 := s0 r XOR s3 r\<rparr>;
          r = r\<lparr>s2 := s2 r XOR t\<rparr>;
          r = r\<lparr>s3 := rol64 (s3 r) 45\<rparr>
      in (result, r))"

text \<open>
  Each of the four loops of \<open>Seed\<close> has the shape
  \<open>for r.sK = 0; r.sK == 0; i++ { r.sK = Splitmix64(uint64(seed) + uint64(i)) }\<close>.
  \<open>Seed_loop seed v i\<close> is that loop from its condition on, with \<open>v\<close> the current value
  of the word and \<open>i\<close> the counter; it returns the word and the counter at exit. Nothing
  in the loop bounds the number of rounds, so the result is an option: \<open>None\<close> stands
  for a loop that never exits. The counter is a Go \<open>int\<close>, taken as 64 bits wide.
\<close>

partial_function (option) Seed_loop :: "uint64 \<Rightarrow> uint64 \<Rightarrow> 64 word \<Rightarrow> (uint64 \<times> 64 word) option" where
  "Seed_loop seed v i =
     (if v = 0 then Seed_loop seed (Splitmix64 (seed + i)) (i + 1) else Some (v, i))"

text \<open>
  \<open>Seed_run\<close> is the body of \<open>Seed\<close>: the four loops one after the other on the one
  counter \<open>i\<close>, which starts at 0. It returns the receiver and the final counter.
\<close>

definition Seed_run :: "UnsafeXoshiro256ssRNG \<Rightarrow> int64 \<Rightarrow> (UnsafeXoshiro256ssRNG \<times> 64 word) option" where
  "Seed_run r seed =
     do {
       let i = 0;
       (v, i) \<leftarrow> Seed_loop seed 0 i;
       let r = r\<lparr>s0 := v\<rparr>;
       (v, i) \<leftarrow> Seed_loop seed 0 i;
       let r = r\<lparr>s1 := v\<rparr>;
       (v, i) \<leftarrow> Seed_loop seed 0 i;
       let r = r\<lparr>s2 := v\<rparr>;
       (v, i) \<leftarrow> Seed_loop seed 0 i;
       let r = r\<lparr>s3 := v\<rparr>;
       Some (r, i)
     }"

definition UnsafeXoshiro256ssRNG_Seed :: "UnsafeXoshiro256ssRNG \<Rightarrow> int64 \<Rightarrow> UnsafeXoshiro256ssRNG option" where
  "UnsafeXoshiro256ssRNG_Seed r seed = map_option fst (Seed_run r seed)"

section \<open>Drawing from a generator\<close>

text \<open>
  \<open>after_draws Uint64 k r\<close> is the generator \<open>r\<close> after \<open>k\<close> calls of its method, and
  \<open>draw Uint64 r k\<close> the value its call number \<open>k\<close> returns, the first call being number 0.
  \<open>counted Uint64\<close> is the same generator with a counter of the calls made to it.
\<close>

definition after_draws :: "'g UnsafeRNG \<Rightarrow> nat \<Rightarrow> 'g \<Rightarrow> 'g" where
  "after_draws Uint64 k r = ((\<lambda>r. snd (Uint64 r)) ^^ k) r"

definition draw :: "'g UnsafeRNG \<Rightarrow> 'g \<Rightarrow> nat \<Rightarrow> uint64" where
  "draw Uint64 r k = fst (Uint64 (after_draws Uint64 k r))"

definition counted :: "'g UnsafeRNG \<Rightarrow> ('g \<times> nat) UnsafeRNG" where
  "counted Uint64 rc = (case rc of (r, c) \<Rightarrow> (case Uint64 r of (x, r) \<Rightarrow> (x, (r, Suc c))))"

text \<open>The all-zero state of the core, and the state the repository's test starts from.\<close>

definition zero_state :: UnsafeXoshiro256ssRNG where
  "zero_state = \<lparr>s0 = 0, s1 = 0, s2 = 0, s3 = 0\<rparr>"

definition reference_state :: UnsafeXoshiro256ssRNG where
  "reference_state = \<lparr>s0 = 0x01d353e5f3993bb0, s1 = 0x7b9c0df6cb193b20,
                      s2 = 0xfdfcaa91110765b6, s3 = 0xd2db341f10bb232e\<rparr>"

section \<open>The byte-fill routine\<close>

text \<open>
  An assignment \<open>bytes[i] = v\<close> panics when \<open>i\<close> is not below \<open>len(bytes)\<close>. \<open>and_then\<close>
  runs the next statement unless the one before it has panicked.
\<close>

definition store :: "byte list \<Rightarrow> nat \<Rightarrow> byte \<Rightarrow> panic + byte list" where
  "store bytes i v =
     (if i < length bytes then Inr (bytes[i := v])
      else Inl (Panic ''runtime error: index out of range''))"

definition and_then :: "panic + 'a \<Rightarrow> ('a \<Rightarrow> panic + 'b) \<Rightarrow> panic + 'b" where
  "and_then m f = (case m of Inl e \<Rightarrow> Inl e | Inr a \<Rightarrow> f a)"

text \<open>
  The eight assignments \<open>bytes[i] = byte(x)\<close>, \<open>bytes[i+1] = byte(x >> 8)\<close>, ...,
  \<open>bytes[i+7] = byte(x >> 56)\<close> of the first loop's body. The conversion \<open>byte(_)\<close> keeps
  the low eight bits.
\<close>

definition store8 :: "byte list \<Rightarrow> nat \<Rightarrow> uint64 \<Rightarrow> panic + byte list" where
  "store8 bytes i x =
     and_then (store bytes i (ucast x)) (\<lambda>bytes.
     and_then (store bytes (i + 1) (ucast (drop_bit 8 x))) (\<lambda>bytes.
     and_then (store bytes (i + 2) (ucast (drop_bit 16 x))) (\<lambda>bytes.
     and_then (store bytes (i + 3) (ucast (drop_bit 24 x))) (\<lambda>bytes.
     and_then (store bytes (i + 4) (ucast (drop_bit 32 x))) (\<lambda>bytes.
     and_then (store bytes (i + 5) (ucast (drop_bit 40 x))) (\<lambda>bytes.
     and_then (store bytes (i + 6) (ucast (drop_bit 48 x))) (\<lambda>bytes.
     store bytes (i + 7) (ucast (drop_bit 56 x)))))))))"

text \<open>
  The first loop of \<open>Bytes\<close>: \<open>for { if i == iMax { break }; x := r.Uint64(); ...; i += 8 }\<close>.
  It leaves only when \<open>i\<close> meets \<open>iMax\<close> or an assignment panics. The indices are Go
  \<open>int\<close>s that stay between 0 and \<open>len(bytes)\<close>, so they are natural numbers here.
\<close>

function Bytes_loop8 ::
  "'g UnsafeRNG \<Rightarrow> 'g \<Rightarrow> byte list \<Rightarrow> nat \<Rightarrow> nat \<Rightarrow> panic + ('g \<times> byte list \<times> nat)" where
  "Bytes_loop8 Uint64 r bytes i iMax =
     (if i = iMax then Inr (r, bytes, i)
      else (case Uint64 r of (x, r) \<Rightarrow>
        (case store8 bytes i x of
           Inl e \<Rightarrow> Inl e
         | Inr bytes \<Rightarrow> Bytes_loop8 Uint64 r bytes (i + 8) iMax)))"
  by pat_completeness auto
termination
  by (relation "measure (\<lambda>(Uint64, r, bytes, i, iMax). length bytes - i)")
    (auto simp: store8_def and_then_def store_def split: if_splits)

text \<open>
  The second loop: \<open>for { if i >= n { break }; bytes[i] = byte(x); x >>= 8; i += 1 }\<close>.
\<close>

function Bytes_loop1 :: "byte list \<Rightarrow> uint64 \<Rightarrow> nat \<Rightarrow> nat \<Rightarrow> panic + byte list" where
  "Bytes_loop1 bytes x i n =
     (if i \<ge> n then Inr bytes
      else (case store bytes i (ucast x) of
              Inl e \<Rightarrow> Inl e
            | Inr bytes \<Rightarrow> Bytes_loop1 bytes (drop_bit 8 x) (i + 1) n))"
  by pat_completeness auto
termination
  by (relation "measure (\<lambda>(bytes, x, i, n). n - i)") auto

text \<open>
  \<open>func Bytes(r UnsafeRNG, bytes []byte) []byte\<close>: the slice returned and the generator
  after the call, or the panic. The draw between the two loops is made on every call.
\<close>

definition Bytes :: "'g UnsafeRNG \<Rightarrow> 'g \<Rightarrow> byte list \<Rightarrow> panic + (byte list \<times> 'g)" where
  "Bytes Uint64 r bytes =
     (let n = length bytes;
          i = 0;
          iMax = n - (n mod 8)
      in (case Bytes_loop8 Uint64 r bytes i iMax of
            Inl e \<Rightarrow> Inl e
          | Inr (r, bytes, i) \<Rightarrow>
              (case Uint64 r of (x, r) \<Rightarrow>
                (case Bytes_loop1 bytes x i n of
                   Inl e \<Rightarrow> Inl e
                 | Inr bytes \<Rightarrow> Inr (bytes, r)))))"

text \<open>
  \<open>le_byte x m\<close> is byte number \<open>m\<close> of the word \<open>x\<close>, the least significant byte
  being number 0. \<open>fill Uint64 r k\<close> is the byte at index \<open>k\<close> of a buffer laid out in
  8-byte little-endian chunks of the successive draws from \<open>r\<close>.
\<close>

definition le_byte :: "uint64 \<Rightarrow> nat \<Rightarrow> byte" where
  "le_byte x m = ucast (drop_bit (8 * m) x)"

definition fill :: "'g UnsafeRNG \<Rightarrow> 'g \<Rightarrow> nat \<Rightarrow> byte" where
  "fill Uint64 r k = le_byte (draw Uint64 r (k div 8)) (k mod 8)"

declare Bytes_loop8.simps [simp del]
declare Bytes_loop1.simps [simp del]

section \<open>The pool-backed wrapper\<close>

text \<open>
  \<open>ThreadsafePoolRNG\<close> holds a \<open>sync.Pool\<close> of generators. The pool is Go's library, not
  this repository's code: its state is a value of some type \<open>'p\<close>, and its methods are the
  parameters \<open>Get\<close>, which hands out a generator (a pooled one, or a new one from the
  factory) with the pool after the call, and \<open>Put\<close>, which takes one back. Nothing is
  assumed about them.
\<close>

definition ThreadsafePoolRNG_Uint64 ::
  "('p \<Rightarrow> 'g \<times> 'p) \<Rightarrow> ('p \<Rightarrow> 'g \<Rightarrow> 'p) \<Rightarrow> 'g UnsafeRNG \<Rightarrow> 'p \<Rightarrow> uint64 \<times> 'p" where
  "ThreadsafePoolRNG_Uint64 Get Put Uint64 s =
     (case Get s of (r, s) \<Rightarrow>
       (case Uint64 r of (x, r) \<Rightarrow>
         (x, Put s r)))"

definition ThreadsafePoolRNG_Int63 ::
  "('p \<Rightarrow> 'g \<times> 'p) \<Rightarrow> ('p \<Rightarrow> 'g \<Rightarrow> 'p) \<Rightarrow> 'g UnsafeRNG \<Rightarrow> 'p \<Rightarrow> int64 \<times> 'p" where
  "ThreadsafePoolRNG_Int63 Get Put Uint64 s =
     (case ThreadsafePoolRNG_Uint64 Get Put Uint64 s of (x, s) \<Rightarrow>
       (0x7FFFFFFFFFFFFFFF AND x, s))"

text \<open>\<open>Seed\<close> of the wrapper: its body is the one statement \<open>panic(...)\<close>.\<close>

definition ThreadsafePoolRNG_Seed :: "'p \<Rightarrow> int64 \<Rightarrow> panic + 'p" where
  "ThreadsafePoolRNG_Seed s seed = Inl (Panic ''Cant seed a ThreadsafePoolRNG'')"

text \<open>
  \<open>Uint32n(maxN int) uint32\<close>. The argument is a Go \<open>int\<close>, given by its value; the
  conversion \<open>uint64(maxN)\<close> is \<open>word_of_int\<close>, and \<open>uint32(_)\<close> keeps the low 32 bits.
\<close>

definition ThreadsafePoolRNG_Uint32n ::
  "('p \<Rightarrow> 'g \<times> 'p) \<Rightarrow> ('p \<Rightarrow> 'g \<Rightarrow> 'p) \<Rightarrow> 'g UnsafeRNG \<Rightarrow> 'p \<Rightarrow> int \<Rightarrow> uint32 \<times> 'p" where
  "ThreadsafePoolRNG_Uint32n Get Put Uint64 s maxN =
     (case ThreadsafePoolRNG_Uint64 Get Put Uint64 s of (x, s) \<Rightarrow>
       (let x = x AND 0x00000000FFFFFFFF
        in (ucast (drop_bit 32 (x * word_of_int maxN)), s)))"

section \<open>The specification's words for the core\<close>

text \<open>
  The specification's \<open>rotate_left\<close> is the 64-bit circular left shift, \<open>word_rotl\<close> of the
  library. \<open>spec_next_uint64\<close> follows the specification's text for \<open>next_uint64\<close> step by
  step on the four words \<open>a0 .. a3\<close>: the output \<open>rotate_left(s1 * 5, 7) * 9\<close> of the state
  before the transition, then
  \<open>t = s1 << 17; s2 ^= s0; s3 ^= s1; s1 ^= s2; s0 ^= s3; s2 ^= t; s3 = rotate_left(s3, 45)\<close>.
\<close>

definition spec_next_uint64 :: "UnsafeXoshiro256ssRNG \<Rightarrow> uint64 \<times> UnsafeXoshiro256ssRNG" where
  "spec_next_uint64 r =
     (let a0 = s0 r; a1 = s1 r; a2 = s2 r; a3 = s3 r;
          out = word_rotl 7 (a1 * 5) * 9;
          t = push_bit 17 a1;
          a2 = a2 XOR a0;
          a3 = a3 XOR a1;
          a1 = a1 XOR a2;
          a0 = a0 XOR a3;
          a2 = a2 XOR t;
          a3 = word_rotl 45 a3
      in (out, \<lparr>s0 = a0, s1 = a1, s2 = a2, s3 = a3\<rparr>))"

text \<open>
  The specification's seeding calls the expander with \<open>seed + 0, seed + 1, seed + 2, ...\<close>
  and keeps the non-zero results. \<open>nonzero_expansions seed\<close> are the non-zero ones among
  the first five such values, in the order of the counter.
\<close>

definition nonzero_expansions :: "uint64 \<Rightarrow> uint64 list" where
  "nonzero_expansions seed =
     filter (\<lambda>w. w \<noteq> 0) (map (\<lambda>k. Splitmix64 (seed + k)) [0, 1, 2, 3, 4])"

section \<open>Results about the core\<close>

lemma bit_uint64_high: "64 \<le> n \<Longrightarrow> \<not> bit (x :: uint64) n"
  by (auto dest: bit_imp_le_length)

lemma rol64_7: "rol64 x 7 = word_rotl 7 x"
proof (rule bit_word_eqI)
  fix n assume n: "n < LENGTH(64)"
  show "bit (rol64 x 7) n = bit (word_rotl 7 x) n"
  proof (cases "n < 7")
    case True
    then have "(n + 57) mod 64 = n + 57" by simp
    with True n show ?thesis
      by (simp add: rol64_def bit_simps) (simp add: add.commute)
  next
    case False
    then have "(n + 57) mod 64 = n - 7" using n
      by (simp add: mod_if)
    with False n show ?thesis
      by (simp add: rol64_def bit_simps bit_uint64_high)
  qed
qed

lemma rol64_45: "rol64 x 45 = word_rotl 45 x"
proof (rule bit_word_eqI)
  fix n assume n: "n < LENGTH(64)"
  show "bit (rol64 x 45) n = bit (word_rotl 45 x) n"
  proof (cases "n < 45")
    case True
    then have "(n + 19) mod 64 = n + 19" by simp
    with True n show ?thesis
      by (simp add: rol64_def bit_simps) (simp add: add.commute)
  next
    case False
    then have "(n + 19) mod 64 = n - 45" using n
      by (simp add: mod_if)
    with False n show ?thesis
      by (simp add: rol64_def bit_simps bit_uint64_high)
  qed
qed

text \<open>
  C6. For every state \<open>(s0, s1, s2, s3)\<close>, one call of \<open>Uint64\<close> on the core returns
  \<open>rotate_left(s1 * 5, 7) * 9\<close> of the state before the call, arithmetic modulo \<open>2^64\<close>
  and \<open>rotate_left\<close> the 64-bit circular left shift, and leaves the state the
  specification's transition gives. The second conjunct spells the result out in the
  words of the state before the call.
\<close>

theorem Uint64_refines_spec_next_uint64:
  "UnsafeXoshiro256ssRNG_Uint64 r = spec_next_uint64 r \<and>
   UnsafeXoshiro256ssRNG_Uint64 r =
     (word_rotl 7 (s1 r * 5) * 9,
      \<lparr>s0 = s0 r XOR (s3 r XOR s1 r),
       s1 = s1 r XOR (s2 r XOR s0 r),
       s2 = (s2 r XOR s0 r) XOR push_bit 17 (s1 r),
       s3 = word_rotl 45 (s3 r XOR s1 r)\<rparr>)"
  by (simp add: UnsafeXoshiro256ssRNG_Uint64_def spec_next_uint64_def Let_def
      rol64_7 rol64_45 ac_simps)

subsection \<open>The expander has one zero\<close>

lemma xor_eq_0_word: "(a :: uint64) XOR b = 0 \<Longrightarrow> b = a"
proof -
  assume "a XOR b = 0"
  then have "a XOR (a XOR b) = a XOR 0" by (rule arg_cong)
  then show "b = a" by (simp add: xor.assoc [symmetric])
qed

lemma xorshift_right_zero:
  assumes k: "0 < k" and z: "(z :: uint64) XOR drop_bit k z = 0"
  shows "z = 0"
proof (rule ccontr)
  assume nz: "z \<noteq> 0"
  have d: "drop_bit k z = z" using z by (rule xor_eq_0_word)
  have "unat (drop_bit k z) = unat z div 2 ^ k"
    by (simp only: unat_drop_bit_eq) (simp only: drop_bit_eq_div)
  then have e: "unat z div 2 ^ k = unat z" by (simp only: d)
  have p: "(1::nat) < 2 ^ k" by (rule one_less_power) (simp_all add: k)
  have "0 < unat z" using nz by (simp add: unat_gt_0)
  then have "unat z div 2 ^ k < unat z" using p by (rule div_less_dividend [rotated])
  then show False by (simp only: e less_irrefl)
qed

lemma mult_unit_zero:
  assumes "(x :: uint64) * a = 0" and "a * b = 1"
  shows "x = 0"
proof -
  have "(x * a) * b = x * (a * b)" by (rule mult.assoc)
  then show ?thesis by (simp only: assms mult_zero_left mult_1_right)
qed

text \<open>The two multipliers of the expander are odd, hence units modulo \<open>2^64\<close>.\<close>

lemma multiplier1_unit: "(0xBF58476D1CE4E5B9 :: uint64) * 0x96de1b173f119089 = 1"
  by simp

lemma multiplier2_unit: "(0x94D049BB133111EB :: uint64) * 0x319642b2d24d8ec3 = 1"
  by simp

lemma Splitmix64_zero_imp:
  assumes h: "Splitmix64 x = 0"
  shows "x = 0x61c8864680b583eb"
proof -
  define a where "a = x + 0x9E3779B97F4A7C15"
  define b where "b = (a XOR drop_bit 30 a) * 0xBF58476D1CE4E5B9"
  define c where "c = (b XOR drop_bit 27 b) * 0x94D049BB133111EB"
  have "Splitmix64 x = c XOR drop_bit 31 c"
    by (simp only: Splitmix64_def Let_def a_def b_def c_def)
  then have "c XOR drop_bit 31 c = 0" using h by (simp only:)
  then have "c = 0" by (rule xorshift_right_zero [rotated]) simp
  then have "(b XOR drop_bit 27 b) * 0x94D049BB133111EB = 0" by (simp only: c_def)
  then have "b XOR drop_bit 27 b = 0" by (rule mult_unit_zero) (rule multiplier2_unit)
  then have "b = 0" by (rule xorshift_right_zero [rotated]) simp
  then have "(a XOR drop_bit 30 a) * 0xBF58476D1CE4E5B9 = 0" by (simp only: b_def)
  then have "a XOR drop_bit 30 a = 0" by (rule mult_unit_zero) (rule multiplier1_unit)
  then have "a = 0" by (rule xorshift_right_zero [rotated]) simp
  then have "x + 0x9E3779B97F4A7C15 = 0" by (simp only: a_def)
  then have "x = - 0x9E3779B97F4A7C15" by (simp only: eq_neg_iff_add_eq_0)
  also have "\<dots> = (0x61c8864680b583eb :: uint64)" by simp
  finally show ?thesis .
qed

lemma Splitmix64_zero: "Splitmix64 x = 0 \<longleftrightarrow> x = 0x61c8864680b583eb"
proof
  assume "Splitmix64 x = 0"
  then show "x = 0x61c8864680b583eb" by (rule Splitmix64_zero_imp)
next
  assume "x = 0x61c8864680b583eb"
  then show "Splitmix64 x = 0" by (simp add: Splitmix64_def)
qed

subsection \<open>The loops of Seed\<close>

lemma Seed_loop_nonzero: "v \<noteq> 0 \<Longrightarrow> Seed_loop seed v i = Some (v, i)"
  by (subst Seed_loop.simps) simp

lemma Splitmix64_succ_nonzero:
  assumes "Splitmix64 x = 0"
  shows "Splitmix64 (x + 1) \<noteq> 0"
proof
  assume "Splitmix64 (x + 1) = 0"
  then have "x + 1 = 0x61c8864680b583eb" by (rule Splitmix64_zero_imp)
  moreover have "x = 0x61c8864680b583eb" using assms by (rule Splitmix64_zero_imp)
  ultimately show False by simp
qed

lemma Seed_loop_zero:
  "Seed_loop seed 0 i =
     (if Splitmix64 (seed + i) \<noteq> 0 then Some (Splitmix64 (seed + i), i + 1)
      else Some (Splitmix64 (seed + i + 1), i + 2))"
proof (cases "Splitmix64 (seed + i) = 0")
  case False
  have "Seed_loop seed 0 i = Seed_loop seed (Splitmix64 (seed + i)) (i + 1)"
    by (subst Seed_loop.simps) simp
  with False show ?thesis by (simp add: Seed_loop_nonzero)
next
  case True
  have nz: "Splitmix64 (seed + i + 1) \<noteq> 0"
    using True by (rule Splitmix64_succ_nonzero)
  have "Seed_loop seed 0 i = Seed_loop seed (Splitmix64 (seed + i)) (i + 1)"
    by (subst Seed_loop.simps) simp
  also have "\<dots> = Seed_loop seed 0 (i + 1)" by (simp only: True)
  also have "\<dots> = Seed_loop seed (Splitmix64 (seed + (i + 1))) (i + 1 + 1)"
    by (subst Seed_loop.simps) simp
  also have "\<dots> = Some (Splitmix64 (seed + i + 1), i + 2)"
    using nz by (simp add: Seed_loop_nonzero add.assoc)
  finally show ?thesis using True by simp
qed

lemma Seed_run_all_nonzero:
  assumes "Splitmix64 seed \<noteq> 0" "Splitmix64 (seed + 1) \<noteq> 0"
    "Splitmix64 (seed + 2) \<noteq> 0" "Splitmix64 (seed + 3) \<noteq> 0"
  shows "Seed_run r seed =
    Some (r\<lparr>s0 := Splitmix64 seed, s1 := Splitmix64 (seed + 1),
           s2 := Splitmix64 (seed + 2), s3 := Splitmix64 (seed + 3)\<rparr>, 4)"
  using assms by (simp add: Seed_run_def Seed_loop_zero)

subsection \<open>The transition and the all-zero state\<close>

lemma xorshift_left_zero:
  assumes k: "0 < k" and x: "(x :: uint64) XOR push_bit k x = 0"
  shows "x = 0"
proof -
  have d: "push_bit k x = x" using x by (rule xor_eq_0_word)
  have nb: "\<not> bit x n" for n
  proof (induction n rule: less_induct)
    case (less n)
    show ?case
    proof
      assume "bit x n"
      then have "bit (push_bit k x) n" by (simp only: d)
      then have kn: "k \<le> n" and b: "bit x (n - k)" by (simp_all add: bit_push_bit_iff)
      have "n - k < n" using kn k by simp
      then have "\<not> bit x (n - k)" by (rule less.IH)
      then show False using b by simp
    qed
  qed
  show ?thesis by (rule bit_eqI) (simp add: nb)
qed

lemma word_rotl_zero_imp: "word_rotl k (x :: uint64) = 0 \<Longrightarrow> x = 0"
proof -
  assume "word_rotl k x = 0"
  then have "word_rotr k (word_rotl k x) = word_rotr k 0" by (rule arg_cong)
  then show "x = 0" by simp
qed

lemma Uint64_unfold:
  "UnsafeXoshiro256ssRNG_Uint64 r =
     (word_rotl 7 (s1 r * 5) * 9,
      \<lparr>s0 = s0 r XOR (s3 r XOR s1 r),
       s1 = s1 r XOR (s2 r XOR s0 r),
       s2 = (s2 r XOR s0 r) XOR push_bit 17 (s1 r),
       s3 = word_rotl 45 (s3 r XOR s1 r)\<rparr>)"
  by (simp add: UnsafeXoshiro256ssRNG_Uint64_def Let_def rol64_7 rol64_45 ac_simps)

lemma Uint64_zero_state_imp:
  assumes "snd (UnsafeXoshiro256ssRNG_Uint64 r) = zero_state"
  shows "r = zero_state"
proof -
  from assms have a0: "s0 r XOR (s3 r XOR s1 r) = 0"
    and a1: "s1 r XOR (s2 r XOR s0 r) = 0"
    and a2: "(s2 r XOR s0 r) XOR push_bit 17 (s1 r) = 0"
    and a3: "word_rotl 45 (s3 r XOR s1 r) = 0"
    by (simp_all add: Uint64_unfold zero_state_def)
  from a3 have e31: "s3 r XOR s1 r = 0" by (rule word_rotl_zero_imp)
  with a0 have z0: "s0 r = 0" by simp
  from e31 have e13: "s1 r = s3 r" by (rule xor_eq_0_word)
  from a1 z0 have "s1 r XOR s2 r = 0" by simp
  then have e21: "s2 r = s1 r" by (rule xor_eq_0_word)
  from a2 z0 e21 have "s1 r XOR push_bit 17 (s1 r) = 0" by simp
  then have z1: "s1 r = 0" by (rule xorshift_left_zero [rotated]) simp
  from z1 e21 have z2: "s2 r = 0" by simp
  from z1 e13 have z3: "s3 r = 0" by simp
  show ?thesis using z0 z1 z2 z3 by (cases r) (simp add: zero_state_def)
qed

lemma after_draws_nonzero: "r \<noteq> zero_state \<Longrightarrow> after_draws UnsafeXoshiro256ssRNG_Uint64 k r \<noteq> zero_state"
proof (induction k)
  case 0
  then show ?case by (simp add: after_draws_def)
next
  case (Suc k)
  then have "after_draws UnsafeXoshiro256ssRNG_Uint64 k r \<noteq> zero_state" by simp
  then have "snd (UnsafeXoshiro256ssRNG_Uint64 (after_draws UnsafeXoshiro256ssRNG_Uint64 k r)) \<noteq> zero_state"
    using Uint64_zero_state_imp by blast
  then show ?case by (simp add: after_draws_def)
qed

subsection \<open>Seed returns\<close>

lemma Seed_loop_returns:
  obtains v j where "Seed_loop seed 0 i = Some (v, j)" and "v \<noteq> 0"
proof (cases "Splitmix64 (seed + i) = 0")
  case False
  then have "Seed_loop seed 0 i = Some (Splitmix64 (seed + i), i + 1)"
    by (simp add: Seed_loop_zero)
  with False show ?thesis by (rule that [rotated])
next
  case True
  then have nz: "Splitmix64 (seed + i + 1) \<noteq> 0" by (rule Splitmix64_succ_nonzero)
  from True have "Seed_loop seed 0 i = Some (Splitmix64 (seed + i + 1), i + 2)"
    by (simp add: Seed_loop_zero)
  then show ?thesis using nz by (rule that)
qed

lemma Seed_run_returns:
  obtains v0 v1 v2 v3 j where
    "Seed_run r seed = Some (r\<lparr>s0 := v0, s1 := v1, s2 := v2, s3 := v3\<rparr>, j)"
    and "v0 \<noteq> 0" and "v1 \<noteq> 0" and "v2 \<noteq> 0" and "v3 \<noteq> 0"
proof -
  obtain v0 i0 where l0: "Seed_loop seed 0 0 = Some (v0, i0)" and n0: "v0 \<noteq> 0"
    by (rule Seed_loop_returns)
  obtain v1 i1 where l1: "Seed_loop seed 0 i0 = Some (v1, i1)" and n1: "v1 \<noteq> 0"
    by (rule Seed_loop_returns)
  obtain v2 i2 where l2: "Seed_loop seed 0 i1 = Some (v2, i2)" and n2: "v2 \<noteq> 0"
    by (rule Seed_loop_returns)
  obtain v3 i3 where l3: "Seed_loop seed 0 i2 = Some (v3, i3)" and n3: "v3 \<noteq> 0"
    by (rule Seed_loop_returns)
  have "Seed_run r seed = Some (r\<lparr>s0 := v0, s1 := v1, s2 := v2, s3 := v3\<rparr>, i3)"
    by (simp add: Seed_run_def l0 l1 l2 l3)
  then show ?thesis using n0 n1 n2 n3 by (rule that)
qed

text \<open>
  C3. For every seed, the seed 0 among them, and whatever the state was before, \<open>Seed\<close>
  on the core returns, and each of the four words \<open>s0\<close>, \<open>s1\<close>, \<open>s2\<close>, \<open>s3\<close> of the
  state it leaves is non-zero.
\<close>

theorem Seed_words_nonzero:
  "\<exists>r'. UnsafeXoshiro256ssRNG_Seed r seed = Some r' \<and>
         s0 r' \<noteq> 0 \<and> s1 r' \<noteq> 0 \<and> s2 r' \<noteq> 0 \<and> s3 r' \<noteq> 0"
proof -
  obtain v0 v1 v2 v3 j where
    "Seed_run r seed = Some (r\<lparr>s0 := v0, s1 := v1, s2 := v2, s3 := v3\<rparr>, j)"
    and "v0 \<noteq> 0" and "v1 \<noteq> 0" and "v2 \<noteq> 0" and "v3 \<noteq> 0"
    by (rule Seed_run_returns)
  then show ?thesis by (simp add: UnsafeXoshiro256ssRNG_Seed_def)
qed

text \<open>
  C9. From the state \<open>Seed\<close> leaves, for any seed, no number of calls of \<open>Uint64\<close>
  brings the state to all-zero; and the all-zero state is a fixed point of the
  transition.
\<close>

theorem Seed_never_reaches_zero_state:
  "(\<exists>r'. UnsafeXoshiro256ssRNG_Seed r seed = Some r' \<and> (\<forall>k. after_draws UnsafeXoshiro256ssRNG_Uint64 k r' \<noteq> zero_state)) \<and>
   snd (UnsafeXoshiro256ssRNG_Uint64 zero_state) = zero_state"
proof
  obtain v0 v1 v2 v3 j where
    run: "Seed_run r seed = Some (r\<lparr>s0 := v0, s1 := v1, s2 := v2, s3 := v3\<rparr>, j)"
    and nz: "v0 \<noteq> 0"
    by (rule Seed_run_returns)
  define r' where "r' = r\<lparr>s0 := v0, s1 := v1, s2 := v2, s3 := v3\<rparr>"
  have "s0 r' \<noteq> s0 zero_state" using nz by (simp add: r'_def zero_state_def)
  then have "r' \<noteq> zero_state" by auto
  then have "\<forall>k. after_draws UnsafeXoshiro256ssRNG_Uint64 k r' \<noteq> zero_state" by (simp add: after_draws_nonzero)
  moreover have "UnsafeXoshiro256ssRNG_Seed r seed = Some r'"
    by (simp add: UnsafeXoshiro256ssRNG_Seed_def run r'_def)
  ultimately show "\<exists>r'. UnsafeXoshiro256ssRNG_Seed r seed = Some r' \<and> (\<forall>k. after_draws UnsafeXoshiro256ssRNG_Uint64 k r' \<noteq> zero_state)"
    by blast
next
  show "snd (UnsafeXoshiro256ssRNG_Uint64 zero_state) = zero_state"
    by (simp add: Uint64_unfold zero_state_def)
qed

subsection \<open>The shared counter\<close>

text \<open>
  The state \<open>Seed\<close> leaves, for every seed, and the counter at the end: 4 when no
  expansion was zero and 5 when one was. The counter stays that small, so the width of
  the Go \<open>int\<close> that holds it plays no part.
\<close>

lemma Seed_run_nonzero_expansions:
  "4 \<le> length (nonzero_expansions seed) \<and>
   (\<exists>j. (j = 4 \<or> j = 5) \<and> Seed_run r seed =
     Some (r\<lparr>s0 := nonzero_expansions seed ! 0, s1 := nonzero_expansions seed ! 1,
             s2 := nonzero_expansions seed ! 2, s3 := nonzero_expansions seed ! 3\<rparr>, j))"
proof -
  consider (z0) "Splitmix64 seed = 0" | (z1) "Splitmix64 (seed + 1) = 0"
    | (z2) "Splitmix64 (seed + 2) = 0" | (z3) "Splitmix64 (seed + 3) = 0"
    | (nz) "Splitmix64 seed \<noteq> 0" "Splitmix64 (seed + 1) \<noteq> 0"
        "Splitmix64 (seed + 2) \<noteq> 0" "Splitmix64 (seed + 3) \<noteq> 0"
    by blast
  then show ?thesis
  proof cases
    case z0
    then have s: "seed = 0x61c8864680b583eb" by (rule Splitmix64_zero_imp)
    show ?thesis unfolding s
      by (simp add: Seed_run_def Seed_loop_zero Splitmix64_def nonzero_expansions_def)
  next
    case z1
    then have "seed + 1 = 0x61c8864680b583eb" by (rule Splitmix64_zero_imp)
    then have "seed = 0x61c8864680b583eb - 1" by (simp only: eq_diff_eq)
    then have s: "seed = 0x61c8864680b583ea" by simp
    show ?thesis unfolding s
      by (simp add: Seed_run_def Seed_loop_zero Splitmix64_def nonzero_expansions_def)
  next
    case z2
    then have "seed + 2 = 0x61c8864680b583eb" by (rule Splitmix64_zero_imp)
    then have "seed = 0x61c8864680b583eb - 2" by (simp only: eq_diff_eq)
    then have s: "seed = 0x61c8864680b583e9" by simp
    show ?thesis unfolding s
      by (simp add: Seed_run_def Seed_loop_zero Splitmix64_def nonzero_expansions_def)
  next
    case z3
    then have "seed + 3 = 0x61c8864680b583eb" by (rule Splitmix64_zero_imp)
    then have "seed = 0x61c8864680b583eb - 3" by (simp only: eq_diff_eq)
    then have s: "seed = 0x61c8864680b583e8" by simp
    show ?thesis unfolding s
      by (simp add: Seed_run_def Seed_loop_zero Splitmix64_def nonzero_expansions_def)
  next
    case nz
    then show ?thesis
      by (simp add: Seed_run_def Seed_loop_zero nonzero_expansions_def)
  qed
qed

lemma record_all_fields:
  "(r :: UnsafeXoshiro256ssRNG)\<lparr>s0 := a, s1 := b, s2 := c, s3 := d\<rparr> = \<lparr>s0 = a, s1 = b, s2 = c, s3 = d\<rparr>"
  by (cases r) simp

text \<open>
  C7. \<open>Seed\<close> fills the four words in order from one counter that is never reset. When
  \<open>Splitmix64 (seed + 0)\<close>, ..., \<open>Splitmix64 (seed + 3)\<close> are all non-zero, the state is
  exactly these four values. In every case the state is the first four non-zero values
  among \<open>Splitmix64 (seed + 0)\<close>, ..., \<open>Splitmix64 (seed + 4)\<close> in the order of the counter:
  a zero is skipped and the counter goes on from there.
\<close>

theorem Seed_one_shared_counter:
  "(Splitmix64 seed \<noteq> 0 \<and> Splitmix64 (seed + 1) \<noteq> 0 \<and>
    Splitmix64 (seed + 2) \<noteq> 0 \<and> Splitmix64 (seed + 3) \<noteq> 0 \<longrightarrow>
      UnsafeXoshiro256ssRNG_Seed r seed =
        Some \<lparr>s0 = Splitmix64 seed, s1 = Splitmix64 (seed + 1),
              s2 = Splitmix64 (seed + 2), s3 = Splitmix64 (seed + 3)\<rparr>) \<and>
   4 \<le> length (nonzero_expansions seed) \<and>
   UnsafeXoshiro256ssRNG_Seed r seed =
     Some \<lparr>s0 = nonzero_expansions seed ! 0, s1 = nonzero_expansions seed ! 1,
           s2 = nonzero_expansions seed ! 2, s3 = nonzero_expansions seed ! 3\<rparr>"
proof (intro conjI impI)
  assume "Splitmix64 seed \<noteq> 0 \<and> Splitmix64 (seed + 1) \<noteq> 0 \<and>
    Splitmix64 (seed + 2) \<noteq> 0 \<and> Splitmix64 (seed + 3) \<noteq> 0"
  then have "Seed_run r seed =
    Some (r\<lparr>s0 := Splitmix64 seed, s1 := Splitmix64 (seed + 1),
           s2 := Splitmix64 (seed + 2), s3 := Splitmix64 (seed + 3)\<rparr>, 4)"
    by (simp add: Seed_run_all_nonzero)
  then show "UnsafeXoshiro256ssRNG_Seed r seed =
        Some \<lparr>s0 = Splitmix64 seed, s1 = Splitmix64 (seed + 1),
              s2 = Splitmix64 (seed + 2), s3 = Splitmix64 (seed + 3)\<rparr>"
    by (simp add: UnsafeXoshiro256ssRNG_Seed_def record_all_fields)
next
  show "4 \<le> length (nonzero_expansions seed)"
    using Seed_run_nonzero_expansions [of seed r] by (rule conjunct1)
next
  obtain j where "Seed_run r seed =
     Some (r\<lparr>s0 := nonzero_expansions seed ! 0, s1 := nonzero_expansions seed ! 1,
             s2 := nonzero_expansions seed ! 2, s3 := nonzero_expansions seed ! 3\<rparr>, j)"
    using Seed_run_nonzero_expansions [of seed r] by blast
  then show "UnsafeXoshiro256ssRNG_Seed r seed =
     Some \<lparr>s0 = nonzero_expansions seed ! 0, s1 = nonzero_expansions seed ! 1,
           s2 = nonzero_expansions seed ! 2, s3 = nonzero_expansions seed ! 3\<rparr>"
    by (simp add: UnsafeXoshiro256ssRNG_Seed_def record_all_fields)
qed

text \<open>
  The seed 0 has four non-zero expansions; the seed \<open>0x61c8864680b583ea\<close> has a zero at
  counter 1, which is skipped.
\<close>

theorem Seed_one_shared_counter_witness:
  "Splitmix64 0 \<noteq> 0 \<and> Splitmix64 (0 + 1) \<noteq> 0 \<and> Splitmix64 (0 + 2) \<noteq> 0 \<and> Splitmix64 (0 + 3) \<noteq> 0 \<and>
   UnsafeXoshiro256ssRNG_Seed \<lparr>s0 = 1, s1 = 2, s2 = 3, s3 = 4\<rparr> 0 =
     Some \<lparr>s0 = 0xe220a8397b1dcdaf, s1 = 0x910a2dec89025cc1,
           s2 = 0x975835de1c9756ce, s3 = 0x1d0b14e4db018fed\<rparr> \<and>
   UnsafeXoshiro256ssRNG_Seed \<lparr>s0 = 1, s1 = 2, s2 = 3, s3 = 4\<rparr> 0x61c8864680b583ea =
     Some \<lparr>s0 = 0xb4d055fcf2cbbd7b, s1 = 0x5692161d100b05e5,
           s2 = 0xdbd238973a2b148a, s3 = 0x1e535eede31428f0\<rparr>"
  using Seed_one_shared_counter [of 0 "\<lparr>s0 = 1, s1 = 2, s2 = 3, s3 = 4\<rparr>"]
    Seed_one_shared_counter [of "0x61c8864680b583ea" "\<lparr>s0 = 1, s1 = 2, s2 = 3, s3 = 4\<rparr>"]
  by (simp add: Splitmix64_def nonzero_expansions_def)

subsection \<open>The reference draws\<close>

text \<open>
  C1, as the code has it. From the state \<open>(0x01d353e5f3993bb0, 0x7b9c0df6cb193b20,
  0xfdfcaa91110765b6, 0xd2db341f10bb232e)\<close> the first call of \<open>Uint64\<close> returns
  \<open>0x373a30d9b7b251dd\<close> and the second \<open>0x50fd70a66663d9eb\<close>. Their bytes, least
  significant first, are \<open>dd 51 b2 b7 d9 30 3a 37\<close> and \<open>eb d9 63 66 a6 70 fd 50\<close>: the
  reference sequence is the byte stream, and the repository's test compares each draw
  with the byte-swapped constant (\<open>HostToNetUint64\<close>).
\<close>

theorem reference_draws:
  "fst (UnsafeXoshiro256ssRNG_Uint64 reference_state) = 0x373a30d9b7b251dd \<and>
   fst (UnsafeXoshiro256ssRNG_Uint64 (snd (UnsafeXoshiro256ssRNG_Uint64 reference_state))) =
     0x50fd70a66663d9eb \<and>
   map (le_byte (draw UnsafeXoshiro256ssRNG_Uint64 reference_state 0)) [0, 1, 2, 3, 4, 5, 6, 7] =
     [0xdd, 0x51, 0xb2, 0xb7, 0xd9, 0x30, 0x3a, 0x37] \<and>
   map (le_byte (draw UnsafeXoshiro256ssRNG_Uint64 reference_state 1)) [0, 1, 2, 3, 4, 5, 6, 7] =
     [0xeb, 0xd9, 0x63, 0x66, 0xa6, 0x70, 0xfd, 0x50]"
  by (simp add: UnsafeXoshiro256ssRNG_Uint64_def reference_state_def rol64_def Let_def
      draw_def after_draws_def le_byte_def)

text \<open>
  C1 as the claim states it fails: the first call does not return \<open>0xdd51b2b7d9303a37\<close>.
\<close>

theorem reference_draws_counterexample:
  "fst (UnsafeXoshiro256ssRNG_Uint64 reference_state) \<noteq> 0xdd51b2b7d9303a37"
  by (simp add: UnsafeXoshiro256ssRNG_Uint64_def reference_state_def rol64_def Let_def)

section \<open>Results about the byte-fill routine\<close>

lemma after_draws_Suc: "after_draws Uint64 (Suc k) r = snd (Uint64 (after_draws Uint64 k r))"
  by (simp add: after_draws_def)

lemma Uint64_after_draws:
  "Uint64 (after_draws Uint64 k r) = (draw Uint64 r k, after_draws Uint64 (Suc k) r)"
  by (simp add: draw_def after_draws_Suc)

lemma store8_ok:
  assumes "i + 8 \<le> length bytes"
  shows "store8 bytes i x =
    Inr (bytes[i := ucast x, i + 1 := ucast (drop_bit 8 x), i + 2 := ucast (drop_bit 16 x),
               i + 3 := ucast (drop_bit 24 x), i + 4 := ucast (drop_bit 32 x),
               i + 5 := ucast (drop_bit 40 x), i + 6 := ucast (drop_bit 48 x),
               i + 7 := ucast (drop_bit 56 x)])"
  using assms by (simp add: store8_def and_then_def store_def)

lemma store8_nth:
  assumes "i + 8 \<le> length bytes" and "k < length bytes"
  shows "\<exists>b. store8 bytes i x = Inr b \<and> length b = length bytes \<and>
     b ! k = (if i \<le> k \<and> k < i + 8 then le_byte x (k - i) else bytes ! k)"
proof -
  consider "k < i" | "k = i" | "k = i + 1" | "k = i + 2" | "k = i + 3" | "k = i + 4"
    | "k = i + 5" | "k = i + 6" | "k = i + 7" | "i + 8 \<le> k"
    by linarith
  then show ?thesis
    using assms by cases (simp_all add: store8_ok le_byte_def)
qed

lemma chunk_index:
  assumes "8 * j \<le> (k :: nat)" and "k < 8 * j + 8"
  shows "k div 8 = j" and "k mod 8 = k - 8 * j"
proof -
  show d: "k div 8 = j" using assms by (intro div_nat_eqI) simp_all
  have "k mod 8 = k - 8 * (k div 8)" by (simp only: minus_mult_div_eq_mod)
  then show "k mod 8 = k - 8 * j" by (simp only: d)
qed

lemma Bytes_loop8_inv:
  assumes "j + d = q" and "8 * q \<le> length bytes"
  shows "\<exists>b. Bytes_loop8 Uint64 (after_draws Uint64 j r0) bytes (8 * j) (8 * q) =
            Inr (after_draws Uint64 q r0, b, 8 * q) \<and>
          length b = length bytes \<and>
          (\<forall>k < length bytes. b ! k =
             (if 8 * j \<le> k \<and> k < 8 * q then fill Uint64 r0 k else bytes ! k))"
  using assms
proof (induction d arbitrary: j bytes)
  case 0
  then have "j = q" by simp
  then show ?case by (subst Bytes_loop8.simps) auto
next
  case (Suc d)
  define x where "x = draw Uint64 r0 j"
  have jq: "Suc j + d = q" and lt: "j < q" using Suc.prems(1) by simp_all
  have room: "8 * j + 8 \<le> length bytes" using lt Suc.prems(2) by simp
  obtain b1 where b1: "store8 bytes (8 * j) x = Inr b1" and len1: "length b1 = length bytes"
    using store8_ok [OF room] by simp
  have nth1: "b1 ! k = (if 8 * j \<le> k \<and> k < 8 * j + 8 then le_byte x (k - 8 * j) else bytes ! k)"
    if "k < length bytes" for k
    using store8_nth [OF room that, of x] b1 by simp
  have "8 * q \<le> length b1" using Suc.prems(2) len1 by simp
  from Suc.IH [OF jq this]
  obtain b where run: "Bytes_loop8 Uint64 (after_draws Uint64 (Suc j) r0) b1 (8 * Suc j) (8 * q) =
            Inr (after_draws Uint64 q r0, b, 8 * q)"
    and len: "length b = length b1"
    and nth: "\<forall>k < length b1. b ! k =
             (if 8 * Suc j \<le> k \<and> k < 8 * q then fill Uint64 r0 k else b1 ! k)"
    by blast
  have e: "8 * Suc j = 8 * j + 8" by simp
  have "Bytes_loop8 Uint64 (after_draws Uint64 j r0) bytes (8 * j) (8 * q) =
      Bytes_loop8 Uint64 (after_draws Uint64 (Suc j) r0) b1 (8 * j + 8) (8 * q)"
    using lt by (subst Bytes_loop8.simps) (simp add: Uint64_after_draws x_def [symmetric] b1)
  then have step: "Bytes_loop8 Uint64 (after_draws Uint64 j r0) bytes (8 * j) (8 * q) =
      Inr (after_draws Uint64 q r0, b, 8 * q)"
    using run by (simp only: e)
  have "b ! k = (if 8 * j \<le> k \<and> k < 8 * q then fill Uint64 r0 k else bytes ! k)"
    if k: "k < length bytes" for k
  proof (cases "8 * j \<le> k \<and> k < 8 * j + 8")
    case True
    then have "k div 8 = j" and "k mod 8 = k - 8 * j" by (auto intro: chunk_index)
    then have "fill Uint64 r0 k = le_byte x (k - 8 * j)" by (simp add: fill_def x_def)
    moreover have "k < 8 * q" using True lt by simp
    ultimately show ?thesis
      using True nth [rule_format, of k] k len1 nth1 [OF k] by simp
  next
    case False
    then show ?thesis
      using nth [rule_format, of k] k len1 nth1 [OF k] by auto
  qed
  then show ?case using step len len1 by simp
qed

lemma le_byte_shift: "le_byte (drop_bit 8 x) m = le_byte x (Suc m)"
  by (simp add: le_byte_def drop_bit_drop_bit add.commute)

lemma Bytes_loop1_inv:
  assumes "i + d = n" and "n \<le> length bytes"
  shows "\<exists>b. Bytes_loop1 bytes x i n = Inr b \<and> length b = length bytes \<and>
          (\<forall>k < length bytes. b ! k =
             (if i \<le> k \<and> k < n then le_byte x (k - i) else bytes ! k))"
  using assms
proof (induction d arbitrary: i bytes x)
  case 0
  then have "n \<le> i" by simp
  then show ?case by (subst Bytes_loop1.simps) auto
next
  case (Suc d)
  have lt: "i < n" and nx: "Suc i + d = n" using Suc.prems(1) by simp_all
  define b1 where "b1 = bytes[i := ucast x]"
  have st: "store bytes i (ucast x) = Inr b1"
    using lt Suc.prems(2) by (simp add: store_def b1_def)
  have len1: "length b1 = length bytes" by (simp add: b1_def)
  then have "n \<le> length b1" using Suc.prems(2) by simp
  from Suc.IH [OF nx this, of "drop_bit 8 x"]
  obtain b where run: "Bytes_loop1 b1 (drop_bit 8 x) (Suc i) n = Inr b"
    and len: "length b = length b1"
    and nth: "\<forall>k < length b1. b ! k =
       (if Suc i \<le> k \<and> k < n then le_byte (drop_bit 8 x) (k - Suc i) else b1 ! k)"
    by blast
  have step: "Bytes_loop1 bytes x i n = Bytes_loop1 b1 (drop_bit 8 x) (Suc i) n"
    using lt by (subst Bytes_loop1.simps) (simp add: st)
  have "b ! k = (if i \<le> k \<and> k < n then le_byte x (k - i) else bytes ! k)"
    if k: "k < length bytes" for k
  proof -
    have kb: "b ! k = (if Suc i \<le> k \<and> k < n then le_byte x (Suc (k - Suc i)) else b1 ! k)"
      using nth [rule_format, of k] k len1 by (simp add: le_byte_shift)
    consider "k = i" | "k < i" | "i < k"
      by linarith
    then show ?thesis
    proof cases
      case 1
      then show ?thesis using kb k lt by (simp add: b1_def le_byte_def)
    next
      case 2
      then show ?thesis using kb k by (simp add: b1_def)
    next
      case 3
      then have "Suc (k - Suc i) = k - i" by simp
      then show ?thesis using kb k 3 by (simp add: b1_def)
    qed
  qed
  then show ?case using step run len len1 by simp
qed

lemma Bytes_eq:
  "Bytes Uint64 r bytes =
     Inr (map (fill Uint64 r) [0..<length bytes],
          after_draws Uint64 (length bytes div 8 + 1) r)"
proof -
  define n where "n = length bytes"
  define q where "q = n div 8"
  have iMax: "n - n mod 8 = 8 * q" by (simp add: q_def minus_mod_eq_mult_div)
  have le: "8 * q \<le> length bytes" unfolding q_def n_def by simp
  have r0: "after_draws Uint64 0 r = r" by (simp add: after_draws_def)
  from Bytes_loop8_inv [of 0 q q bytes Uint64 r] le
  obtain b1 where run1: "Bytes_loop8 Uint64 r bytes 0 (8 * q) = Inr (after_draws Uint64 q r, b1, 8 * q)"
    and len1: "length b1 = length bytes"
    and nth1: "\<forall>k < length bytes. b1 ! k = (if k < 8 * q then fill Uint64 r k else bytes ! k)"
    by (auto simp: r0)
  have d: "8 * q + n mod 8 = n" by (simp add: q_def)
  have "n \<le> length b1" by (simp add: len1 n_def)
  from Bytes_loop1_inv [OF d this, of "draw Uint64 r q"]
  obtain b2 where run2: "Bytes_loop1 b1 (draw Uint64 r q) (8 * q) n = Inr b2"
    and len2: "length b2 = length b1"
    and nth2: "\<forall>k < length b1. b2 ! k =
       (if 8 * q \<le> k \<and> k < n then le_byte (draw Uint64 r q) (k - 8 * q) else b1 ! k)"
    by blast
  have "b2 ! k = fill Uint64 r k" if k: "k < n" for k
  proof (cases "k < 8 * q")
    case True
    then show ?thesis
      using nth2 [rule_format, of k] nth1 [rule_format, of k] k len1 by (simp add: n_def)
  next
    case False
    then have lo: "8 * q \<le> k" by simp
    have "n mod 8 < 8" by simp
    then have "n < 8 * q + 8" using d by linarith
    then have hi: "k < 8 * q + 8" using k by simp
    have "k div 8 = q" and "k mod 8 = k - 8 * q" using lo hi by (rule chunk_index)+
    then have "fill Uint64 r k = le_byte (draw Uint64 r q) (k - 8 * q)" by (simp add: fill_def)
    then show ?thesis using nth2 [rule_format, of k] lo k len1 by (simp add: n_def)
  qed
  then have "b2 = map (fill Uint64 r) [0..<n]"
    using len2 len1 by (intro nth_equalityI) (simp_all add: n_def)
  moreover have "Bytes Uint64 r bytes = Inr (b2, after_draws Uint64 (Suc q) r)"
    using run1 run2
    by (simp add: Bytes_def Let_def n_def [symmetric] iMax Uint64_after_draws)
  ultimately show ?thesis by (simp add: n_def q_def)
qed

lemma after_draws_counted:
  "after_draws (counted Uint64) m (r, c) = (after_draws Uint64 m r, c + m)"
proof (induction m)
  case 0
  show ?case by (simp add: after_draws_def)
next
  case (Suc m)
  then show ?case by (simp add: after_draws_Suc counted_def split: prod.splits)
qed

lemma draws_count: "n div 8 + 1 = (n + 7) div 8 + (if n mod 8 = 0 then 1 else 0)" for n :: nat
  by presburger

text \<open>
  C8. For every generator and every buffer of length \<open>n\<close>, \<open>Bytes\<close> returns without a
  panic, and the buffer it returns holds at every index \<open>k < n\<close> byte number \<open>k mod 8\<close>,
  least significant first, of draw number \<open>k div 8\<close>. So the first \<open>n - n mod 8\<close> bytes are
  the whole 8-byte little-endian chunks of the successive draws, and a final partial
  chunk holds the \<open>n mod 8\<close> low-order bytes of one more draw, draw number \<open>n div 8\<close>. The
  generator is left after \<open>n div 8 + 1\<close> draws: the high-order bytes of the last draw are
  not kept for a later call.
\<close>

theorem Bytes_little_endian_chunks:
  "Bytes Uint64 r bytes =
     Inr (map (\<lambda>k. ucast (drop_bit (8 * (k mod 8)) (draw Uint64 r (k div 8)))) [0..<length bytes],
          after_draws Uint64 (length bytes div 8 + 1) r)"
  by (simp add: Bytes_eq fill_def le_byte_def)

lemma draw_counted: "draw (counted Uint64) (r, c) k = draw Uint64 r k"
  by (simp add: draw_def after_draws_counted counted_def split: prod.splits)

text \<open>
  C2, as the code has it. For every generator and every buffer of length \<open>n\<close>, \<open>Bytes\<close>
  writes exactly \<open>n\<close> bytes and calls the generator's \<open>Uint64\<close> exactly \<open>n div 8 + 1\<close>
  times: \<open>ceil(n/8)\<close> times when \<open>n mod 8 \<noteq> 0\<close>, and once more than that when
  \<open>n mod 8 = 0\<close>. The calls are counted by \<open>counted\<close>, from 0. The bytes written are
  pinned: the buffer returned has \<open>n\<close> bytes, and the byte at every index \<open>k\<close> below \<open>n\<close>
  is byte \<open>k mod 8\<close> of draw \<open>k div 8\<close>, whatever the buffer held before the call. So
  every one of the \<open>n\<close> bytes is overwritten, and no assignment falls outside the
  buffer, since that would be a panic and the call returns a buffer.
\<close>

theorem Bytes_length_and_draws:
  "\<exists>b r'. Bytes (counted Uint64) (r, 0) bytes =
            Inr (b, (r', (length bytes + 7) div 8 + (if length bytes mod 8 = 0 then 1 else 0))) \<and>
          length b = length bytes \<and>
          b = map (\<lambda>k. ucast (drop_bit (8 * (k mod 8)) (draw Uint64 r (k div 8))))
                [0..<length bytes] \<and>
          r' = after_draws Uint64 (length bytes div 8 + 1) r"
proof -
  have f: "fill (counted Uint64) (r, 0) =
      (\<lambda>k. ucast (drop_bit (8 * (k mod 8)) (draw Uint64 r (k div 8))))"
    by (rule ext) (simp add: fill_def le_byte_def draw_counted)
  have "Bytes (counted Uint64) (r, 0) bytes =
      Inr (map (fill (counted Uint64) (r, 0)) [0..<length bytes],
           (after_draws Uint64 (length bytes div 8 + 1) r, length bytes div 8 + 1))"
    by (simp only: Bytes_eq after_draws_counted add_0)
  then have "Bytes (counted Uint64) (r, 0) bytes =
      Inr (map (\<lambda>k. ucast (drop_bit (8 * (k mod 8)) (draw Uint64 r (k div 8))))
             [0..<length bytes],
           (after_draws Uint64 (length bytes div 8 + 1) r,
            (length bytes + 7) div 8 + (if length bytes mod 8 = 0 then 1 else 0)))"
    by (simp only: f draws_count [of "length bytes"])
  then show ?thesis by simp
qed

text \<open>
  C2 as the claim states it fails at \<open>n = 0\<close>: on the empty buffer \<open>Bytes\<close> calls \<open>Uint64\<close>
  once, not \<open>ceil(0/8) = 0\<close> times. The generator is the core in the test's state.
\<close>

theorem Bytes_draws_counterexample:
  "Bytes (counted UnsafeXoshiro256ssRNG_Uint64) (reference_state, 0) [] =
     Inr ([], (\<lparr>s0 = 0xa8946a0c283b23be, s1 = 0x87b3f48229876526,
                s2 = 0xe7c26f4694de5e06, s3 = 0x4301d528e73d3b74\<rparr>, 1)) \<and>
   (1 :: nat) \<noteq> (length ([] :: byte list) + 7) div 8"
  by (simp add: Bytes_def Bytes_loop8.simps Bytes_loop1.simps counted_def
      UnsafeXoshiro256ssRNG_Uint64_def reference_state_def rol64_def Let_def)

section \<open>Results about the pool-backed wrapper\<close>

lemma low32: "uint ((x :: uint64) AND 0x00000000FFFFFFFF) = uint x mod 2 ^ 32"
proof -
  have "(0x00000000FFFFFFFF :: uint64) = mask 32" by (simp add: mask_eq_exp_minus_1)
  then have "uint (x AND 0x00000000FFFFFFFF) = uint (take_bit 32 x)"
    by (simp only: take_bit_eq_mask)
  also have "\<dots> = take_bit 32 (uint x)" by (rule unsigned_take_bit_eq)
  also have "\<dots> = uint x mod 2 ^ 32" by (rule take_bit_eq_mod)
  finally show ?thesis .
qed

lemma reduce_bounds:
  fixes a m :: int
  assumes a0: "0 \<le> a" and a1: "a < 2 ^ 32" and m0: "0 < m" and m1: "m < 2 ^ 32"
  shows "a * m < 2 ^ 64" and "0 \<le> a * m div 2 ^ 32" and "a * m div 2 ^ 32 < m"
proof -
  define p where "p = a * m"
  have lt: "p < 2 ^ 32 * m" unfolding p_def using a1 m0 by (rule mult_strict_right_mono)
  have "(2 ^ 32 :: int) * m < 2 ^ 32 * 2 ^ 32" using m1 by simp
  then have "p < 2 ^ 32 * 2 ^ 32" using lt by (rule less_trans [rotated])
  then show "a * m < 2 ^ 64" by (simp add: p_def)
  have p0: "0 \<le> p" unfolding p_def using a0 m0 by simp
  then have "0 \<le> p div 2 ^ 32" by (simp add: pos_imp_zdiv_nonneg_iff)
  then show "0 \<le> a * m div 2 ^ 32" by (simp only: p_def)
  have e: "2 ^ 32 * (p div 2 ^ 32) + p mod 2 ^ 32 = p" by (rule mult_div_mod_eq)
  have r0: "0 \<le> p mod 2 ^ 32" by simp
  have "p div 2 ^ 32 < m"
  proof (rule ccontr)
    assume "\<not> p div 2 ^ 32 < m"
    then have "m \<le> p div 2 ^ 32" by simp
    then have "2 ^ 32 * m \<le> 2 ^ 32 * (p div 2 ^ 32)" by (rule mult_left_mono) simp
    then show False using e r0 lt by linarith
  qed
  then show "a * m div 2 ^ 32 < m" by (simp only: p_def)
qed

lemma Uint32n_value:
  fixes x :: uint64 and maxN :: int
  assumes m0: "0 < maxN" and m1: "maxN < 2 ^ 32"
  shows "uint (ucast (drop_bit 32 ((x AND 0x00000000FFFFFFFF) * word_of_int maxN)) :: uint32) =
           (uint x mod 2 ^ 32) * maxN div 2 ^ 32"
proof -
  define a where "a = uint x mod 2 ^ 32"
  define w :: uint64 where "w = (x AND 0x00000000FFFFFFFF) * word_of_int maxN"
  have a0: "0 \<le> a" and a1: "a < 2 ^ 32" by (simp_all add: a_def)
  note b = reduce_bounds [OF a0 a1 m0 m1]
  have u1: "uint (x AND 0x00000000FFFFFFFF) = a" by (simp only: low32 a_def)
  have "maxN < 2 ^ 64" using m1 by simp
  then have u2: "uint (word_of_int maxN :: uint64) = maxN"
    using m0 by (simp add: uint_word_of_int)
  have "uint (x AND 0x00000000FFFFFFFF) * uint (word_of_int maxN :: uint64) < 2 ^ LENGTH(64)"
    using b(1) by (simp only: u1 u2) simp
  then have "uint w = uint (x AND 0x00000000FFFFFFFF) * uint (word_of_int maxN :: uint64)"
    unfolding w_def by (simp only: uint_mult_lem)
  then have u3: "uint w = a * maxN" by (simp only: u1 u2)
  have "uint (drop_bit 32 w) = drop_bit 32 (take_bit LENGTH(64) (uint w))"
    by (rule unsigned_drop_bit_eq)
  also have "\<dots> = drop_bit 32 (uint w)" by (simp only: bintr_uint [OF order_refl])
  also have "\<dots> = uint w div 2 ^ 32" by (rule drop_bit_eq_div)
  finally have u4: "uint (drop_bit 32 w) = a * maxN div 2 ^ 32" by (simp only: u3)
  have "uint (ucast (drop_bit 32 w) :: uint32) = take_bit LENGTH(32) (uint (drop_bit 32 w))"
    by (rule unsigned_ucast_eq)
  also have "\<dots> = take_bit 32 (a * maxN div 2 ^ 32)" by (simp only: u4) simp
  also have "\<dots> = a * maxN div 2 ^ 32"
    using b(2) b(3) m1 by (intro take_bit_int_eq_self) simp_all
  finally show ?thesis by (simp only: w_def a_def)
qed

lemma Int63_value:
  "sint ((0x7FFFFFFFFFFFFFFF :: uint64) AND x) = uint x mod 2 ^ 63"
proof -
  have "(0x7FFFFFFFFFFFFFFF :: uint64) = mask 63" by (simp add: mask_eq_exp_minus_1)
  then have e: "(0x7FFFFFFFFFFFFFFF :: uint64) AND x = take_bit 63 x"
    by (simp only: take_bit_eq_mask and.commute)
  have "uint (take_bit 63 x) = take_bit 63 (uint x)" by (rule unsigned_take_bit_eq)
  also have "\<dots> = uint x mod 2 ^ 63" by (rule take_bit_eq_mod)
  finally have u: "uint (take_bit 63 x) = uint x mod 2 ^ 63" .
  have "sint (take_bit 63 x) = signed_take_bit (LENGTH(64) - Suc 0) (uint (take_bit 63 x))"
    by (rule sint_uint)
  also have "\<dots> = signed_take_bit 63 (uint x mod 2 ^ 63)" by (simp only: u) simp
  also have "\<dots> = uint x mod 2 ^ 63"
    by (rule signed_take_bit_int_eq_self) simp_all
  finally show ?thesis by (simp only: e)
qed

text \<open>
  C4. For every bound with \<open>0 < bound < 2^32\<close>, \<open>Uint32n\<close> of the wrapper returns a value
  in \<open>[0, bound)\<close>, and that value is \<open>((x & 0xFFFFFFFF) * bound) >> 32\<close> for the \<open>x\<close> the
  wrapper's \<open>Uint64\<close> draws: as the word the code computes, and as the number
  \<open>(x mod 2^32) * bound div 2^32\<close>, nothing being lost in the 64-bit product or in the
  conversion to \<open>uint32\<close>. The pool is left as that one call of \<open>Uint64\<close> leaves it.
\<close>

theorem Uint32n_in_range:
  assumes "0 < maxN" and "maxN < 2 ^ 32"
  shows "uint (fst (ThreadsafePoolRNG_Uint32n Get Put Uint64 s maxN)) < maxN \<and>
         uint (fst (ThreadsafePoolRNG_Uint32n Get Put Uint64 s maxN)) =
           (uint (fst (ThreadsafePoolRNG_Uint64 Get Put Uint64 s)) mod 2 ^ 32) * maxN div 2 ^ 32 \<and>
         fst (ThreadsafePoolRNG_Uint32n Get Put Uint64 s maxN) =
           ucast (drop_bit 32
             ((fst (ThreadsafePoolRNG_Uint64 Get Put Uint64 s) AND 0xFFFFFFFF) * word_of_int maxN)) \<and>
         snd (ThreadsafePoolRNG_Uint32n Get Put Uint64 s maxN) =
           snd (ThreadsafePoolRNG_Uint64 Get Put Uint64 s)"
proof -
  define x where "x = fst (ThreadsafePoolRNG_Uint64 Get Put Uint64 s)"
  have a0: "0 \<le> uint x mod 2 ^ 32" and a1: "uint x mod 2 ^ 32 < 2 ^ 32" by simp_all
  have v: "fst (ThreadsafePoolRNG_Uint32n Get Put Uint64 s maxN) =
      ucast (drop_bit 32 ((x AND 0xFFFFFFFF) * word_of_int maxN))"
    by (simp add: ThreadsafePoolRNG_Uint32n_def x_def split: prod.splits)
  have "uint (fst (ThreadsafePoolRNG_Uint32n Get Put Uint64 s maxN)) =
      (uint x mod 2 ^ 32) * maxN div 2 ^ 32"
    using Uint32n_value [OF assms, of x] by (simp only: v)
  moreover have "(uint x mod 2 ^ 32) * maxN div 2 ^ 32 < maxN"
    using a0 a1 assms by (rule reduce_bounds(3))
  moreover have "snd (ThreadsafePoolRNG_Uint32n Get Put Uint64 s maxN) =
      snd (ThreadsafePoolRNG_Uint64 Get Put Uint64 s)"
    by (simp add: ThreadsafePoolRNG_Uint32n_def split: prod.splits)
  ultimately show ?thesis using v by (simp add: x_def)
qed

text \<open>
  A pool that holds the one generator \<open>reference_state\<close>, and the bound 10: the draw is
  \<open>0x373a30d9b7b251dd\<close>, its low 32 bits are \<open>0xb7b251dd\<close>, and the result is 7.
\<close>

theorem Uint32n_in_range_witness:
  "(0 :: int) < 10 \<and> (10 :: int) < 2 ^ 32 \<and>
   uint (fst (ThreadsafePoolRNG_Uint32n (\<lambda>p. (p, p)) (\<lambda>p r. r)
     UnsafeXoshiro256ssRNG_Uint64 reference_state 10)) < 10 \<and>
   fst (ThreadsafePoolRNG_Uint32n (\<lambda>p. (p, p)) (\<lambda>p r. r)
     UnsafeXoshiro256ssRNG_Uint64 reference_state 10) = 7"
  using Uint32n_in_range [of 10 "\<lambda>p. (p, p)" "\<lambda>p r. r"
      UnsafeXoshiro256ssRNG_Uint64 reference_state]
  by (simp add: ThreadsafePoolRNG_Uint32n_def ThreadsafePoolRNG_Uint64_def
      UnsafeXoshiro256ssRNG_Uint64_def reference_state_def rol64_def Let_def)

text \<open>
  C5. \<open>Seed\<close> of the wrapper panics for every seed and every state of the pool: it never
  returns.
\<close>

theorem ThreadsafePoolRNG_Seed_panics:
  "ThreadsafePoolRNG_Seed s seed = Inl (Panic ''Cant seed a ThreadsafePoolRNG'') \<and>
   (\<forall>s'. ThreadsafePoolRNG_Seed s seed \<noteq> Inr s')"
  by (simp add: ThreadsafePoolRNG_Seed_def)

text \<open>
  C10. \<open>Int63\<close> of the wrapper returns the low 63 bits of one draw of the wrapper's
  \<open>Uint64\<close>, the draw ANDed with \<open>0x7FFFFFFFFFFFFFFF\<close>; read as an \<open>int64\<close> it lies in
  \<open>[0, 2^63)\<close>. The pool is left as that one call of \<open>Uint64\<close> leaves it.
\<close>

theorem Int63_nonnegative:
  "fst (ThreadsafePoolRNG_Int63 Get Put Uint64 s) =
     0x7FFFFFFFFFFFFFFF AND fst (ThreadsafePoolRNG_Uint64 Get Put Uint64 s) \<and>
   snd (ThreadsafePoolRNG_Int63 Get Put Uint64 s) = snd (ThreadsafePoolRNG_Uint64 Get Put Uint64 s) \<and>
   0 \<le> sint (fst (ThreadsafePoolRNG_Int63 Get Put Uint64 s)) \<and>
   sint (fst (ThreadsafePoolRNG_Int63 Get Put Uint64 s)) < 2 ^ 63 \<and>
   sint (fst (ThreadsafePoolRNG_Int63 Get Put Uint64 s)) =
     uint (fst (ThreadsafePoolRNG_Uint64 Get Put Uint64 s)) mod 2 ^ 63"
proof -
  define x where "x = fst (ThreadsafePoolRNG_Uint64 Get Put Uint64 s)"
  have v: "fst (ThreadsafePoolRNG_Int63 Get Put Uint64 s) = 0x7FFFFFFFFFFFFFFF AND x"
    by (simp add: ThreadsafePoolRNG_Int63_def x_def split: prod.splits)
  have p: "snd (ThreadsafePoolRNG_Int63 Get Put Uint64 s) =
      snd (ThreadsafePoolRNG_Uint64 Get Put Uint64 s)"
    by (simp add: ThreadsafePoolRNG_Int63_def split: prod.splits)
  have e: "sint (fst (ThreadsafePoolRNG_Int63 Get Put Uint64 s)) = uint x mod 2 ^ 63"
    by (simp only: v Int63_value)
  have "0 \<le> uint x mod 2 ^ 63" and "uint x mod 2 ^ 63 < 2 ^ 63" by simp_all
  then show ?thesis using v p e by (simp add: x_def)
qed

end
